theory Spec2Isabelle
  imports Main
begin

section \<open>The synchronization hub of src/server.js\<close>

text \<open>
  The model covers the socket handlers of \<^verbatim>\<open>src/server.js\<close> (lines 23-41 and 98-205):
  the two global maps \<^verbatim>\<open>clipboardHistory\<close> and \<^verbatim>\<open>userSockets\<close>, the per-connection
  field \<^verbatim>\<open>socket.userId\<close>, the helper \<^verbatim>\<open>broadcastToUserDevices\<close> and the five handlers.
  Every handler takes the hub state and returns the new state together with the list of
  events it emits, in the order of emission.

  What the environment supplies is an input of the model:
  \<^item> \<^verbatim>\<open>jwt.verify(token, JWT_SECRET)\<close> is a function \<open>verify\<close> from the token to
    \<open>Some userId\<close> (the \<^verbatim>\<open>userId\<close> of the decoded payload, a string, as lines 54, 65
    and 89 sign it) or \<open>None\<close> when it throws;
  \<^item> \<^verbatim>\<open>Date.now()\<close> is the natural number \<open>now\<close> that comes with a
    \<^verbatim>\<open>clipboard_update\<close>, and \<^verbatim>\<open>new Date().toISOString()\<close> the string \<open>stamp\<close>.
\<close>

subsection \<open>Data\<close>

text \<open>The object built at lines 128-135.\<close>

record clipboardItem =
  item_id :: string
  item_content :: string
  item_type :: string
  item_timestamp :: string
  item_deviceId :: string
  item_deviceName :: string

text \<open>
  The payload of \<^verbatim>\<open>clipboard_update\<close>; \<open>data_type = None\<close> is a payload without a
  \<^verbatim>\<open>type\<close> field.
\<close>

record update_data =
  data_content :: string
  data_type :: "string option"
  data_deviceId :: string
  data_deviceName :: string

text \<open>
  A live socket object; \<open>userId = None\<close> is \<^verbatim>\<open>socket.userId === undefined\<close>, the
  state of a connection before line 104 has run for it.
\<close>

record socket =
  userId :: "string option"

text \<open>An outbound event: its name and its data.\<close>

datatype out_event =
    History "clipboardItem list"
  | ClipboardSync clipboardItem
  | AuthError string
  | Error string

type_synonym emit = "string \<times> out_event"

text \<open>
  The hub: \<open>clipboardHistory\<close> (line 25), \<open>userSockets\<close> (line 26; a JavaScript
  \<^verbatim>\<open>Set\<close> iterates in insertion order, so it is a list here) and the live socket
  objects by \<^verbatim>\<open>socket.id\<close>.
\<close>

record hub =
  clipboardHistory :: "string \<rightharpoonup> clipboardItem list"
  userSockets :: "string \<rightharpoonup> string list"
  sockets :: "string \<rightharpoonup> socket"

definition hub_init :: hub where
  "hub_init = \<lparr>clipboardHistory = Map.empty, userSockets = Map.empty, sockets = Map.empty\<rparr>"

definition MAX_HISTORY :: nat where
  "MAX_HISTORY = 10"

subsection \<open>JavaScript library functions\<close>

text \<open>\<^verbatim>\<open>Set.prototype.add\<close> and \<^verbatim>\<open>Set.prototype.delete\<close> on the insertion-ordered list.\<close>

definition set_add :: "'a \<Rightarrow> 'a list \<Rightarrow> 'a list" where
  "set_add x xs = (if x \<in> set xs then xs else xs @ [x])"

definition set_delete :: "'a \<Rightarrow> 'a list \<Rightarrow> 'a list" where
  "set_delete x xs = filter (\<lambda>y. y \<noteq> x) xs"

text \<open>\<^verbatim>\<open>Array.prototype.findIndex\<close>; \<open>None\<close> is the result \<^verbatim>\<open>-1\<close>.\<close>

fun findIndex :: "('a \<Rightarrow> bool) \<Rightarrow> 'a list \<Rightarrow> nat option" where
  "findIndex p [] = None"
| "findIndex p (x # xs) = (if p x then Some 0 else map_option Suc (findIndex p xs))"

text \<open>\<^verbatim>\<open>array.splice(i, 1)\<close>: the array without the element at index \<open>i\<close>.\<close>

definition splice_at :: "nat \<Rightarrow> 'a list \<Rightarrow> 'a list" where
  "splice_at i xs = take i xs @ drop (Suc i) xs"

text \<open>\<^verbatim>\<open>Number.prototype.toString\<close> on a natural number: its decimal digits.\<close>

definition digit :: "nat \<Rightarrow> char" where
  "digit d = ''0123456789'' ! d"

fun toString :: "nat \<Rightarrow> string" where
  "toString n = (if n < 10 then [digit n] else toString (n div 10) @ [digit (n mod 10)])"

declare toString.simps [simp del]

subsection \<open>Reading the state\<close>

text \<open>\<^verbatim>\<open>clipboardHistory.get(userId) || []\<close> (lines 113, 138, 187).\<close>

definition history_get :: "hub \<Rightarrow> string \<Rightarrow> clipboardItem list" where
  "history_get s uid = (case clipboardHistory s uid of None \<Rightarrow> [] | Some h \<Rightarrow> h)"

text \<open>\<^verbatim>\<open>socket.userId\<close> of the socket with this id.\<close>

definition socket_userId :: "hub \<Rightarrow> string \<Rightarrow> string option" where
  "socket_userId s sid = (case sockets s sid of None \<Rightarrow> None | Some sock \<Rightarrow> userId sock)"

subsection \<open>broadcastToUserDevices (lines 32-41)\<close>

text \<open>
  \<open>excludeSocketId = None\<close> is the default \<^verbatim>\<open>null\<close>, which no socket id equals.
\<close>

definition broadcastToUserDevices :: "hub \<Rightarrow> string \<Rightarrow> out_event \<Rightarrow> string option \<Rightarrow> emit list" where
  "broadcastToUserDevices s uid ev excludeSocketId =
     (case userSockets s uid of
        None \<Rightarrow> []
      | Some socks \<Rightarrow>
          map (\<lambda>socketId. (socketId, ev))
            (filter (\<lambda>socketId. Some socketId \<noteq> excludeSocketId) socks))"

subsection \<open>The handlers (lines 101-204)\<close>

text \<open>
  The \<^verbatim>\<open>disconnect\<close> handler, lines 196-204. A falsy \<^verbatim>\<open>socket.userId\<close> is
  \<^verbatim>\<open>undefined\<close> or the empty string.
\<close>

definition on_disconnect :: "string \<Rightarrow> hub \<Rightarrow> hub" where
  "on_disconnect sid s =
     (case socket_userId s sid of
        None \<Rightarrow> s
      | Some uid \<Rightarrow>
          if uid = [] then s
          else (case userSockets s uid of
                  None \<Rightarrow> s
                | Some socks \<Rightarrow>
                    (let socks' = set_delete sid socks
                     in if length socks' = 0
                        then s\<lparr>userSockets := (userSockets s)(uid := None)\<rparr>
                        else s\<lparr>userSockets := (userSockets s)(uid \<mapsto> socks')\<rparr>)))"

text \<open>
  The end of a connection, reported by the transport or asked for by
  \<^verbatim>\<open>socket.disconnect()\<close> (line 118): socket.io fires the socket's
  \<^verbatim>\<open>disconnect\<close> event in both cases, so the handler runs, and the socket object is
  gone afterwards.
\<close>

definition socket_close :: "string \<Rightarrow> hub \<Rightarrow> hub" where
  "socket_close sid s = (let s1 = on_disconnect sid s in s1\<lparr>sockets := (sockets s1)(sid := None)\<rparr>)"

text \<open>The \<^verbatim>\<open>authenticate\<close> handler, lines 101-120.\<close>

definition on_authenticate ::
  "(string \<Rightarrow> string option) \<Rightarrow> string \<Rightarrow> string \<Rightarrow> hub \<Rightarrow> hub \<times> emit list" where
  "on_authenticate verify sid token s =
     (case verify token of
        Some uid \<Rightarrow>
          (let s1 = s\<lparr>sockets := (sockets s)(sid \<mapsto> \<lparr>userId = Some uid\<rparr>)\<rparr>;
               socks = (case userSockets s1 uid of None \<Rightarrow> [] | Some xs \<Rightarrow> xs);
               s2 = s1\<lparr>userSockets := (userSockets s1)(uid \<mapsto> set_add sid socks)\<rparr>
           in (s2, [(sid, History (history_get s2 uid))]))
      | None \<Rightarrow> (socket_close sid s, [(sid, AuthError ''Invalid token'')]))"

text \<open>Lines 128-135: the new item; \<^verbatim>\<open>data.type || 'text'\<close> at line 131.\<close>

definition new_item :: "update_data \<Rightarrow> nat \<Rightarrow> string \<Rightarrow> clipboardItem" where
  "new_item d now stamp =
     \<lparr>item_id = toString now,
      item_content = data_content d,
      item_type = (case data_type d of None \<Rightarrow> ''text'' | Some t \<Rightarrow> if t = [] then ''text'' else t),
      item_timestamp = stamp,
      item_deviceId = data_deviceId d,
      item_deviceName = data_deviceName d\<rparr>"

text \<open>The predicate of \<^verbatim>\<open>findIndex\<close> at lines 141-143.\<close>

definition same_content :: "clipboardItem \<Rightarrow> clipboardItem \<Rightarrow> bool" where
  "same_content clipboardItem item =
     (item_content item = item_content clipboardItem \<and> item_type item = item_type clipboardItem)"

text \<open>Lines 140-156: what the handler does to the array \<^verbatim>\<open>history\<close>.\<close>

definition update_history :: "clipboardItem \<Rightarrow> clipboardItem list \<Rightarrow> clipboardItem list" where
  "update_history clipboardItem history =
     (let existingIndex = findIndex (same_content clipboardItem) history;
          history1 = (case existingIndex of None \<Rightarrow> history | Some i \<Rightarrow> splice_at i history);
          history2 = clipboardItem # history1
      in if length history2 > MAX_HISTORY then butlast history2 else history2)"

text \<open>The \<^verbatim>\<open>clipboard_update\<close> handler, lines 122-167.\<close>

definition on_clipboard_update ::
  "string \<Rightarrow> update_data \<Rightarrow> nat \<Rightarrow> string \<Rightarrow> hub \<Rightarrow> hub \<times> emit list" where
  "on_clipboard_update sid d now stamp s =
     (case socket_userId s sid of
        None \<Rightarrow> (s, [(sid, Error ''Not authenticated'')])
      | Some uid \<Rightarrow>
          if uid = [] then (s, [(sid, Error ''Not authenticated'')])
          else
            (let clipboardItem = new_item d now stamp;
                 history = update_history clipboardItem (history_get s uid);
                 s1 = s\<lparr>clipboardHistory := (clipboardHistory s)(uid \<mapsto> history)\<rparr>
             in (s1,
                 broadcastToUserDevices s1 uid (ClipboardSync clipboardItem) (Some sid)
                 @ broadcastToUserDevices s1 uid (History history) None)))"

text \<open>The \<^verbatim>\<open>clear_history\<close> handler, lines 169-179.\<close>

definition on_clear_history :: "string \<Rightarrow> hub \<Rightarrow> hub \<times> emit list" where
  "on_clear_history sid s =
     (case socket_userId s sid of
        None \<Rightarrow> (s, [(sid, Error ''Not authenticated'')])
      | Some uid \<Rightarrow>
          if uid = [] then (s, [(sid, Error ''Not authenticated'')])
          else
            (let s1 = s\<lparr>clipboardHistory := (clipboardHistory s)(uid \<mapsto> [])\<rparr>
             in (s1, broadcastToUserDevices s1 uid (History []) None)))"

text \<open>The \<^verbatim>\<open>delete_item\<close> handler, lines 181-194.\<close>

definition on_delete_item :: "string \<Rightarrow> string \<Rightarrow> hub \<Rightarrow> hub \<times> emit list" where
  "on_delete_item sid itemId s =
     (case socket_userId s sid of
        None \<Rightarrow> (s, [(sid, Error ''Not authenticated'')])
      | Some uid \<Rightarrow>
          if uid = [] then (s, [(sid, Error ''Not authenticated'')])
          else
            (let history = history_get s uid;
                 newHistory = filter (\<lambda>item. item_id item \<noteq> itemId) history;
                 s1 = s\<lparr>clipboardHistory := (clipboardHistory s)(uid \<mapsto> newHistory)\<rparr>
             in (s1, broadcastToUserDevices s1 uid (History newHistory) None)))"

subsection \<open>Events and runs\<close>

text \<open>
  What the transport delivers. \<open>Connect\<close> is the callback of line 98, which creates the
  socket object with no \<^verbatim>\<open>userId\<close>; every other event reaches the handler of a live
  socket, and there is nothing to run for an id with no live socket.
\<close>

datatype event =
    Connect string
  | Authenticate string string
  | ClipboardUpdate string update_data nat string
  | ClearHistory string
  | DeleteItem string string
  | Disconnect string

fun event_socket :: "event \<Rightarrow> string" where
  "event_socket (Connect sid) = sid"
| "event_socket (Authenticate sid token) = sid"
| "event_socket (ClipboardUpdate sid d now stamp) = sid"
| "event_socket (ClearHistory sid) = sid"
| "event_socket (DeleteItem sid itemId) = sid"
| "event_socket (Disconnect sid) = sid"

fun handle :: "(string \<Rightarrow> string option) \<Rightarrow> hub \<Rightarrow> event \<Rightarrow> hub \<times> emit list" where
  "handle verify s (Connect sid) = (s, [])"
| "handle verify s (Authenticate sid token) = on_authenticate verify sid token s"
| "handle verify s (ClipboardUpdate sid d now stamp) = on_clipboard_update sid d now stamp s"
| "handle verify s (ClearHistory sid) = on_clear_history sid s"
| "handle verify s (DeleteItem sid itemId) = on_delete_item sid itemId s"
| "handle verify s (Disconnect sid) = (socket_close sid s, [])"

definition step :: "(string \<Rightarrow> string option) \<Rightarrow> hub \<Rightarrow> event \<Rightarrow> hub \<times> emit list" where
  "step verify s e =
     (case sockets s (event_socket e) of
        None \<Rightarrow>
          (case e of
             Connect sid \<Rightarrow> (s\<lparr>sockets := (sockets s)(sid \<mapsto> \<lparr>userId = None\<rparr>)\<rparr>, [])
           | _ \<Rightarrow> (s, []))
      | Some sock \<Rightarrow> handle verify s e)"

fun run :: "(string \<Rightarrow> string option) \<Rightarrow> hub \<Rightarrow> event list \<Rightarrow> hub \<times> emit list" where
  "run verify s [] = (s, [])"
| "run verify s (e # es) =
     (let (s1, out1) = step verify s e;
          (s2, out2) = run verify s1 es
      in (s2, out1 @ out2))"

subsection \<open>Notions used in the statements\<close>

text \<open>The pair that line 142 compares.\<close>

definition item_key :: "clipboardItem \<Rightarrow> string \<times> string" where
  "item_key item = (item_content item, item_type item)"

text \<open>Whether the socket id is in the set that \<open>userSockets\<close> holds for the user.\<close>

definition registered_for :: "hub \<Rightarrow> string \<Rightarrow> string \<Rightarrow> bool" where
  "registered_for s uid sid = (case userSockets s uid of None \<Rightarrow> False | Some socks \<Rightarrow> sid \<in> set socks)"

text \<open>
  The registry agrees with the sockets: an id in a user's set is the id of a live socket
  whose \<^verbatim>\<open>userId\<close> is that user.
\<close>

definition registry_consistent :: "hub \<Rightarrow> bool" where
  "registry_consistent s = (\<forall>u c. registered_for s u c \<longrightarrow> socket_userId s c = Some u \<and> u \<noteq> [])"

text \<open>
  A run in which no connection changes its identity: every \<^verbatim>\<open>authenticate\<close> with a
  token that verifies comes from a socket with no \<^verbatim>\<open>userId\<close> yet or with the same
  one, and the identity is not the empty string.
\<close>

fun identity_kept :: "(string \<Rightarrow> string option) \<Rightarrow> hub \<Rightarrow> event \<Rightarrow> bool" where
  "identity_kept verify s (Authenticate sid token) =
     (case verify token of
        None \<Rightarrow> True
      | Some uid \<Rightarrow> uid \<noteq> [] \<and> (socket_userId s sid = None \<or> socket_userId s sid = Some uid))"
| "identity_kept verify s e = True"

fun keeps_identity :: "(string \<Rightarrow> string option) \<Rightarrow> hub \<Rightarrow> event list \<Rightarrow> bool" where
  "keeps_identity verify s [] = True"
| "keeps_identity verify s (e # es) =
     (identity_kept verify s e \<and> keeps_identity verify (fst (step verify s e)) es)"

text \<open>
  A run in which the clock of every \<^verbatim>\<open>clipboard_update\<close> is at least \<open>t\<close> and
  greater than the clock of the update before it.
\<close>

fun clock_increases :: "nat \<Rightarrow> event list \<Rightarrow> bool" where
  "clock_increases t [] = True"
| "clock_increases t (ClipboardUpdate sid d now stamp # es) = (t \<le> now \<and> clock_increases (Suc now) es)"
| "clock_increases t (e # es) = clock_increases t es"

fun next_clock :: "nat \<Rightarrow> event \<Rightarrow> nat" where
  "next_clock t (ClipboardUpdate sid d now stamp) = Suc now"
| "next_clock t e = t"

text \<open>The ids are distinct and are the renderings of clocks below \<open>t\<close>.\<close>

definition ids_below :: "nat \<Rightarrow> clipboardItem list \<Rightarrow> bool" where
  "ids_below t h = (distinct (map item_id h) \<and> (\<forall>x\<in>set h. \<exists>n<t. item_id x = toString n))"

subsection \<open>Example inputs\<close>

definition ex_verify :: "string \<Rightarrow> string option" where
  "ex_verify token =
     (if token = ''tok1'' then Some ''1'' else if token = ''tok2'' then Some ''2'' else None)"

definition ex_data :: "string \<Rightarrow> string option \<Rightarrow> update_data" where
  "ex_data c ty = \<lparr>data_content = c, data_type = ty, data_deviceId = ''pc'', data_deviceName = ''pc''\<rparr>"

definition ex_item :: "string \<Rightarrow> string \<Rightarrow> string \<Rightarrow> clipboardItem" where
  "ex_item i c ty = \<lparr>item_id = i, item_content = c, item_type = ty, item_timestamp = ''t0'',
     item_deviceId = ''pc'', item_deviceName = ''pc''\<rparr>"

text \<open>
  User \<open>1\<close> with the connections \<open>A\<close> and \<open>B\<close> and a history of two entries.
\<close>

definition ex_hub :: hub where
  "ex_hub =
     \<lparr>clipboardHistory = [''1'' \<mapsto> [ex_item ''3'' ''bar'' ''text'', ex_item ''2'' ''foo'' ''text'']],
      userSockets = [''1'' \<mapsto> [''A'', ''B'']],
      sockets = [''A'' \<mapsto> \<lparr>userId = Some ''1''\<rparr>, ''B'' \<mapsto> \<lparr>userId = Some ''1''\<rparr>]\<rparr>"

section \<open>Helper lemmas\<close>

subsection \<open>findIndex and splice\<close>

lemma findIndex_Some:
  "findIndex p xs = Some i \<Longrightarrow> i < length xs \<and> p (xs ! i) \<and> (\<forall>j<i. \<not> p (xs ! j))"
proof (induction xs arbitrary: i)
  case Nil
  then show ?case by simp
next
  case (Cons x xs)
  show ?case
  proof (cases "p x")
    case True
    with Cons.prems show ?thesis by simp
  next
    case False
    with Cons.prems obtain k where k: "findIndex p xs = Some k" "i = Suc k"
      by auto
    from Cons.IH [OF k(1)] False k(2) show ?thesis
      by (auto simp: nth_Cons split: nat.splits)
  qed
qed

lemma findIndex_None: "findIndex p xs = None \<longleftrightarrow> (\<forall>x\<in>set xs. \<not> p x)"
  by (induction xs) auto

lemma findIndex_found: "x \<in> set xs \<Longrightarrow> p x \<Longrightarrow> \<exists>i. findIndex p xs = Some i"
  using findIndex_None [of p xs] by (cases "findIndex p xs") auto

lemma length_splice_at: "i < length xs \<Longrightarrow> length (splice_at i xs) = length xs - 1"
  by (simp add: splice_at_def)

lemma set_splice_at: "set (splice_at i xs) \<subseteq> set xs"
  unfolding splice_at_def using set_take_subset [of i xs] set_drop_subset [of "Suc i" xs]
  by auto

lemma distinct_map_splice_at: "distinct (map f xs) \<Longrightarrow> distinct (map f (splice_at i xs))"
proof -
  assume d: "distinct (map f xs)"
  have "map f xs = map f (take i xs) @ map f (drop i xs)"
    by (metis append_take_drop_id map_append)
  moreover have "set (map f (drop (Suc i) xs)) \<subseteq> set (map f (drop i xs))"
    by (metis drop_map set_drop_subset_set_drop le_SucI order_refl)
  moreover have "distinct (map f (drop (Suc i) xs))"
    using d by (metis distinct_drop drop_map)
  ultimately show ?thesis
    using d unfolding splice_at_def by (auto simp: distinct_append)
qed

text \<open>In a list whose keys are distinct, removing the entry at \<open>i\<close> removes its key.\<close>

lemma splice_at_removes_key:
  assumes "distinct (map f xs)" and "i < length xs"
  shows "f (xs ! i) \<notin> f ` set (splice_at i xs)"
proof -
  have xs: "xs = take i xs @ (xs ! i) # drop (Suc i) xs"
    using assms(2) by (simp add: id_take_nth_drop)
  have "distinct (map f (take i xs @ (xs ! i) # drop (Suc i) xs))"
    using assms(1) xs by simp
  then show ?thesis
    unfolding splice_at_def by (auto simp: distinct_append)
qed

subsection \<open>The history after an update\<close>

lemma same_content_key: "same_content a b \<longleftrightarrow> item_key b = item_key a"
  by (auto simp: same_content_def item_key_def)

lemma length_update_history:
  "length h \<le> MAX_HISTORY \<Longrightarrow> length (update_history item h) \<le> MAX_HISTORY"
proof -
  assume h: "length h \<le> MAX_HISTORY"
  have "length (case findIndex (same_content item) h of None \<Rightarrow> h | Some i \<Rightarrow> splice_at i h)
          \<le> MAX_HISTORY"
    using h by (auto split: option.splits dest!: findIndex_Some simp: length_splice_at)
  then show ?thesis
    by (auto simp: update_history_def Let_def)
qed

lemma distinct_update_history:
  assumes "distinct (map item_key h)"
  shows "distinct (map item_key (update_history item h))"
proof -
  let ?h1 = "case findIndex (same_content item) h of None \<Rightarrow> h | Some i \<Rightarrow> splice_at i h"
  have d1: "distinct (map item_key ?h1)"
    using assms by (auto split: option.splits intro: distinct_map_splice_at)
  have "item_key item \<notin> item_key ` set ?h1"
  proof (cases "findIndex (same_content item) h")
    case None
    then show ?thesis
      using findIndex_None [of "same_content item" h] by (auto simp: same_content_key)
  next
    case (Some i)
    from findIndex_Some [OF Some] have i: "i < length h" "item_key (h ! i) = item_key item"
      by (auto simp: same_content_key)
    from splice_at_removes_key [OF assms i(1)] i(2) Some show ?thesis
      by simp
  qed
  with d1 have d2: "distinct (map item_key (item # ?h1))"
    by simp
  then have "distinct (butlast (map item_key (item # ?h1)))"
    by (rule distinct_butlast)
  then have "distinct (map item_key (butlast (item # ?h1)))"
    by (simp only: map_butlast)
  with d2 show ?thesis
    by (simp add: update_history_def Let_def)
qed

text \<open>
  An update whose content and type are those of an entry already in a history within the
  bound: the first such entry goes, the new item comes first, the length stays.
\<close>

lemma update_history_duplicate:
  assumes "e \<in> set h" and "same_content item e" and "length h \<le> MAX_HISTORY"
  shows "\<exists>i. findIndex (same_content item) h = Some i \<and> i < length h
           \<and> same_content item (h ! i)
           \<and> update_history item h = item # splice_at i h
           \<and> length (update_history item h) = length h"
proof -
  from findIndex_found [of e h "same_content item"] assms(1,2)
  obtain i where i: "findIndex (same_content item) h = Some i"
    by blast
  from findIndex_Some [OF i] have il: "i < length h" and m: "same_content item (h ! i)"
    by auto
  have len: "length (item # splice_at i h) = length h"
    using il by (simp add: length_splice_at)
  with assms(3) have "update_history item h = item # splice_at i h"
    by (simp add: update_history_def i)
  with i il m len show ?thesis by simp
qed

subsection \<open>What one event does to a history\<close>

lemma clipboardHistory_on_disconnect: "clipboardHistory (on_disconnect sid s) = clipboardHistory s"
  by (simp add: on_disconnect_def Let_def split: option.splits)

lemma clipboardHistory_socket_close: "clipboardHistory (socket_close sid s) = clipboardHistory s"
  by (simp add: socket_close_def Let_def clipboardHistory_on_disconnect)

lemma history_get_socket_close: "history_get (socket_close sid s) u = history_get s u"
  by (simp add: history_get_def clipboardHistory_socket_close)

lemma history_get_on_authenticate:
  "history_get (fst (on_authenticate verify sid token s)) u = history_get s u"
  by (simp add: on_authenticate_def Let_def history_get_def clipboardHistory_socket_close
      split: option.splits)

lemma history_get_on_clipboard_update:
  "history_get (fst (on_clipboard_update sid d now stamp s)) u = history_get s u
   \<or> history_get (fst (on_clipboard_update sid d now stamp s)) u
       = update_history (new_item d now stamp) (history_get s u)"
  by (simp add: on_clipboard_update_def Let_def history_get_def split: option.splits)

lemma history_get_on_clear_history:
  "history_get (fst (on_clear_history sid s)) u = history_get s u
   \<or> history_get (fst (on_clear_history sid s)) u = []"
  by (simp add: on_clear_history_def Let_def history_get_def split: option.splits)

lemma history_get_on_delete_item:
  "history_get (fst (on_delete_item sid itemId s)) u = history_get s u
   \<or> history_get (fst (on_delete_item sid itemId s)) u
       = filter (\<lambda>item. item_id item \<noteq> itemId) (history_get s u)"
  by (simp add: on_delete_item_def Let_def history_get_def split: option.splits)

text \<open>
  Every event leaves a history as it is, or replaces it by the updated, the empty or
  the filtered one.
\<close>

lemma history_get_step:
  "history_get (fst (step verify s e)) u = history_get s u
   \<or> (\<exists>item. history_get (fst (step verify s e)) u = update_history item (history_get s u))
   \<or> history_get (fst (step verify s e)) u = []
   \<or> (\<exists>itemId. history_get (fst (step verify s e)) u
         = filter (\<lambda>item. item_id item \<noteq> itemId) (history_get s u))"
proof (cases "sockets s (event_socket e)")
  case None
  then show ?thesis
    by (cases e) (simp_all add: step_def history_get_def)
next
  case (Some sock)
  then have st: "step verify s e = handle verify s e"
    by (simp add: step_def)
  show ?thesis
  proof (cases e)
    case (Connect sid)
    with st show ?thesis by simp
  next
    case (Authenticate sid token)
    with st show ?thesis by (simp add: history_get_on_authenticate)
  next
    case (ClipboardUpdate sid d now stamp)
    with st history_get_on_clipboard_update [of sid d now stamp s u] show ?thesis by auto
  next
    case (ClearHistory sid)
    with st history_get_on_clear_history [of sid s u] show ?thesis by auto
  next
    case (DeleteItem sid itemId)
    with st history_get_on_delete_item [of sid itemId s u] show ?thesis by auto
  next
    case (Disconnect sid)
    with st show ?thesis by (simp add: history_get_socket_close)
  qed
qed

text \<open>A property of lists that the three history operations keep holds along every run.\<close>

lemma history_get_run_invariant:
  assumes upd: "\<And>item h. P h \<Longrightarrow> P (update_history item h)"
    and emp: "P []"
    and del: "\<And>q h. P h \<Longrightarrow> P (filter q h)"
  shows "P (history_get s u) \<Longrightarrow> P (history_get (fst (run verify s evs)) u)"
proof (induction evs arbitrary: s)
  case Nil
  then show ?case by simp
next
  case (Cons e evs)
  have "P (history_get (fst (step verify s e)) u)"
    using history_get_step [of verify s e u] Cons.prems upd emp del by auto
  from Cons.IH [OF this] show ?case
    by (simp add: split_beta Let_def)
qed

subsection \<open>An update from an authenticated connection\<close>

lemma step_clipboard_update_authenticated:
  assumes "sockets s sid = Some sock" and "userId sock = Some uid" and "uid \<noteq> []"
  shows "step verify s (ClipboardUpdate sid d now stamp) =
          (s\<lparr>clipboardHistory := (clipboardHistory s)
                (uid \<mapsto> update_history (new_item d now stamp) (history_get s uid))\<rparr>,
           broadcastToUserDevices s uid (ClipboardSync (new_item d now stamp)) (Some sid)
           @ broadcastToUserDevices s uid
               (History (update_history (new_item d now stamp) (history_get s uid))) None)"
  using assms
  by (simp add: step_def on_clipboard_update_def socket_userId_def Let_def
      broadcastToUserDevices_def)

lemma update_history_head: "update_history item h = item # tl (update_history item h)"
proof -
  have "butlast (item # xs) = item # butlast xs" if "MAX_HISTORY < length (item # xs)" for xs
    using that by (cases xs) (simp_all add: MAX_HISTORY_def)
  then show ?thesis
    by (auto simp: update_history_def Let_def simp del: butlast.simps)
qed

lemma toString_digit: "n < 10 \<Longrightarrow> toString n = [digit n]"
  by (simp add: toString.simps)

lemmas ex_defs = ex_hub_def ex_verify_def ex_data_def ex_item_def hub_init_def

lemmas eval_defs = step_def socket_userId_def history_get_def broadcastToUserDevices_def
  on_authenticate_def on_clipboard_update_def on_clear_history_def on_delete_item_def
  on_disconnect_def socket_close_def set_add_def set_delete_def
  update_history_def new_item_def same_content_def splice_at_def MAX_HISTORY_def
  toString_digit digit_def Let_def

subsection \<open>What the end of a connection does to the registry\<close>

lemma userSockets_on_disconnect:
  "userSockets (on_disconnect sid s) u =
     (if socket_userId s sid = Some u \<and> u \<noteq> []
      then (case userSockets s u of
              None \<Rightarrow> None
            | Some socks \<Rightarrow>
                if filter (\<lambda>c. c \<noteq> sid) socks = [] then None
                else Some (filter (\<lambda>c. c \<noteq> sid) socks))
      else userSockets s u)"
  by (auto simp: on_disconnect_def set_delete_def Let_def split: option.splits)

lemma userSockets_socket_close:
  "userSockets (socket_close sid s) = userSockets (on_disconnect sid s)"
  by (simp add: socket_close_def Let_def)


lemma registered_for_socket_close:
  "registered_for (socket_close sid s) u c \<longleftrightarrow>
     registered_for s u c \<and> \<not> (c = sid \<and> socket_userId s sid = Some u \<and> u \<noteq> [])"
  by (auto simp: registered_for_def userSockets_socket_close userSockets_on_disconnect
      filter_empty_conv split: option.splits if_splits)

lemma distinct_set_singleton: "distinct xs \<Longrightarrow> set xs = {b} \<Longrightarrow> xs = [b]"
proof -
  assume d: "distinct xs" and s: "set xs = {b}"
  then have "length xs = 1"
    using distinct_card [of xs] by simp
  with s show ?thesis
    by (cases xs) auto
qed

subsection \<open>The decimal rendering is injective\<close>

lemma digit_inj: "a < 10 \<Longrightarrow> b < 10 \<Longrightarrow> digit a = digit b \<Longrightarrow> a = b"
proof -
  assume a: "a < 10" and b: "b < 10" and e: "digit a = digit b"
  have d: "distinct ''0123456789''" by simp
  have l: "length ''0123456789'' = 10" by simp
  from e have "''0123456789'' ! a = ''0123456789'' ! b" by (simp add: digit_def)
  with d a b l show ?thesis
    by (metis nth_eq_iff_index_eq)
qed

lemma toString_not_Nil: "toString n \<noteq> []"
  by (subst toString.simps) simp

lemma toString_inj: "toString m = toString n \<Longrightarrow> m = n"
proof (induction m arbitrary: n rule: toString.induct)
  case (1 m)
  show ?case
  proof (cases "m < 10")
    case True
    then have m: "toString m = [digit m]" by (simp add: toString.simps)
    show ?thesis
    proof (cases "n < 10")
      case True
      with m "1.prems" \<open>m < 10\<close> show ?thesis
        by (simp add: toString.simps [of n] digit_inj)
    next
      case False
      then have "toString n = toString (n div 10) @ [digit (n mod 10)]"
        by (simp add: toString.simps [of n])
      with m "1.prems" toString_not_Nil [of "n div 10"] show ?thesis
        by (cases "toString (n div 10)") auto
    qed
  next
    case False
    then have m: "toString m = toString (m div 10) @ [digit (m mod 10)]"
      by (simp add: toString.simps [of m])
    show ?thesis
    proof (cases "n < 10")
      case True
      then have "toString n = [digit n]" by (simp add: toString.simps)
      with m "1.prems" toString_not_Nil [of "m div 10"] show ?thesis
        by (cases "toString (m div 10)") auto
    next
      case n: False
      then have "toString n = toString (n div 10) @ [digit (n mod 10)]"
        by (simp add: toString.simps [of n])
      with m "1.prems" have e: "toString (m div 10) = toString (n div 10)"
          and d: "digit (m mod 10) = digit (n mod 10)"
        by auto
      from "1.IH" [OF False e] have "m div 10 = n div 10" .
      moreover from d have "m mod 10 = n mod 10"
        by (intro digit_inj) auto
      ultimately show ?thesis
        by (metis div_mult_mod_eq)
    qed
  qed
qed

subsection \<open>Runs that keep the registry consistent\<close>

lemma socket_userId_socket_close:
  "socket_userId (socket_close sid s) c = (if c = sid then None else socket_userId s c)"
  by (simp add: socket_close_def socket_userId_def on_disconnect_def Let_def split: option.splits)

lemma registry_consistent_socket_close:
  "registry_consistent s \<Longrightarrow> registry_consistent (socket_close sid s)"
  unfolding registry_consistent_def
  by (auto simp: registered_for_socket_close socket_userId_socket_close)

lemma registry_consistent_on_authenticate:
  assumes "registry_consistent s" and "identity_kept verify s (Authenticate sid token)"
    and "sockets s sid = Some sock"
  shows "registry_consistent (fst (on_authenticate verify sid token s))"
proof (cases "verify token")
  case None
  with assms(1) show ?thesis
    by (simp add: on_authenticate_def registry_consistent_socket_close)
next
  case (Some uid)
  with assms(2) have uid: "uid \<noteq> []" and old: "socket_userId s sid = None \<or> socket_userId s sid = Some uid"
    by auto
  show ?thesis
    unfolding registry_consistent_def
  proof (intro allI impI)
    fix u c
    assume r: "registered_for (fst (on_authenticate verify sid token s)) u c"
    show "socket_userId (fst (on_authenticate verify sid token s)) c = Some u \<and> u \<noteq> []"
    proof (cases "u = uid")
      case True
      from r True Some have "c = sid \<or> registered_for s uid c"
        by (auto simp: on_authenticate_def registered_for_def set_add_def Let_def
            split: option.splits if_splits)
      with assms(1) old True Some uid show ?thesis
        by (auto simp: registry_consistent_def on_authenticate_def socket_userId_def Let_def)
    next
      case False
      with r Some have r0: "registered_for s u c"
        by (auto simp: on_authenticate_def registered_for_def Let_def)
      with assms(1) have c: "socket_userId s c = Some u" "u \<noteq> []"
        by (auto simp: registry_consistent_def)
      with old False have "c \<noteq> sid" by auto
      with c Some show ?thesis
        by (auto simp: on_authenticate_def socket_userId_def Let_def)
    qed
  qed
qed

lemma registry_unchanged_update:
  "userSockets (fst (on_clipboard_update sid d now stamp s)) = userSockets s
   \<and> sockets (fst (on_clipboard_update sid d now stamp s)) = sockets s"
  by (simp add: on_clipboard_update_def Let_def split: option.splits)

lemma registry_unchanged_clear:
  "userSockets (fst (on_clear_history sid s)) = userSockets s
   \<and> sockets (fst (on_clear_history sid s)) = sockets s"
  by (simp add: on_clear_history_def Let_def split: option.splits)

lemma registry_unchanged_delete:
  "userSockets (fst (on_delete_item sid itemId s)) = userSockets s
   \<and> sockets (fst (on_delete_item sid itemId s)) = sockets s"
  by (simp add: on_delete_item_def Let_def split: option.splits)

lemma registry_consistent_cong:
  "userSockets s' = userSockets s \<Longrightarrow> sockets s' = sockets s \<Longrightarrow>
   registry_consistent s \<Longrightarrow> registry_consistent s'"
  by (simp add: registry_consistent_def registered_for_def socket_userId_def)

lemma registry_consistent_step:
  assumes "registry_consistent s" and "identity_kept verify s e"
  shows "registry_consistent (fst (step verify s e))"
proof (cases "sockets s (event_socket e)")
  case None
  show ?thesis
  proof (cases e)
    case (Connect sid)
    with None have n: "socket_userId s sid = None"
      by (simp add: socket_userId_def)
    with assms(1) have "\<forall>u. \<not> registered_for s u sid"
      by (auto simp: registry_consistent_def)
    with assms(1) Connect None show ?thesis
      by (auto simp: step_def registry_consistent_def registered_for_def socket_userId_def)
  qed (use None assms(1) in \<open>simp_all add: step_def\<close>)
next
  case (Some sock)
  then have st: "step verify s e = handle verify s e"
    by (simp add: step_def)
  show ?thesis
  proof (cases e)
    case (Connect sid)
    with st assms(1) show ?thesis by simp
  next
    case (Authenticate sid token)
    with st assms Some show ?thesis
      by (simp add: registry_consistent_on_authenticate)
  next
    case (ClipboardUpdate sid d now stamp)
    with st assms(1) registry_unchanged_update [of sid d now stamp s] show ?thesis
      by (auto intro: registry_consistent_cong)
  next
    case (ClearHistory sid)
    with st assms(1) registry_unchanged_clear [of sid s] show ?thesis
      by (auto intro: registry_consistent_cong)
  next
    case (DeleteItem sid itemId)
    with st assms(1) registry_unchanged_delete [of sid itemId s] show ?thesis
      by (auto intro: registry_consistent_cong)
  next
    case (Disconnect sid)
    with st assms(1) show ?thesis
      by (simp add: registry_consistent_socket_close)
  qed
qed

lemma registry_consistent_run:
  "registry_consistent s \<Longrightarrow> keeps_identity verify s evs \<Longrightarrow>
   registry_consistent (fst (run verify s evs))"
proof (induction evs arbitrary: s)
  case Nil
  then show ?case by simp
next
  case (Cons e evs)
  from Cons.prems have "registry_consistent (fst (step verify s e))"
    by (simp add: registry_consistent_step)
  moreover from Cons.prems have "keeps_identity verify (fst (step verify s e)) evs"
    by simp
  ultimately show ?case
    using Cons.IH by (simp add: split_beta Let_def)
qed

lemma registry_consistent_init: "registry_consistent hub_init"
  by (simp add: registry_consistent_def registered_for_def hub_init_def)

subsection \<open>Ids along a run with an increasing clock\<close>

lemma ids_below_mono: "ids_below t h \<Longrightarrow> t \<le> t' \<Longrightarrow> ids_below t' h"
  unfolding ids_below_def by (meson less_le_trans)

lemma ids_below_Nil: "ids_below t []"
  by (simp add: ids_below_def)

lemma ids_below_filter: "ids_below t h \<Longrightarrow> ids_below t (filter q h)"
  by (simp add: ids_below_def distinct_map_filter)

lemma ids_below_update_history:
  assumes "ids_below t h" and "t \<le> now"
  shows "ids_below (Suc now) (update_history (new_item d now stamp) h)"
proof -
  let ?item = "new_item d now stamp"
  let ?h1 = "case findIndex (same_content ?item) h of None \<Rightarrow> h | Some i \<Rightarrow> splice_at i h"
  have sub: "set ?h1 \<subseteq> set h"
    by (auto split: option.splits dest: subsetD [OF set_splice_at])
  have d1: "distinct (map item_id ?h1)"
    using assms(1) by (auto simp: ids_below_def split: option.splits intro: distinct_map_splice_at)
  have old: "\<exists>n<t. item_id x = toString n" if "x \<in> set ?h1" for x
    using that sub assms(1) by (auto simp: ids_below_def)
  have new: "item_id ?item = toString now"
    by (simp add: new_item_def)
  have fresh: "item_id ?item \<notin> item_id ` set ?h1"
  proof
    assume "item_id ?item \<in> item_id ` set ?h1"
    then obtain x where x: "x \<in> set ?h1" "item_id x = toString now"
      using new by auto
    from old [OF x(1)] obtain n where "n < t" "item_id x = toString n"
      by blast
    with x(2) have "n = now"
      by (simp add: toString_inj)
    with \<open>n < t\<close> assms(2) show False by simp
  qed
  have all: "ids_below (Suc now) (?item # ?h1)"
    unfolding ids_below_def
  proof (intro conjI ballI)
    show "distinct (map item_id (?item # ?h1))"
      using d1 fresh by simp
    fix x assume "x \<in> set (?item # ?h1)"
    then consider "x = ?item" | "x \<in> set ?h1" by auto
    then show "\<exists>n<Suc now. item_id x = toString n"
    proof cases
      case 1
      with new show ?thesis by auto
    next
      case 2
      from old [OF 2] assms(2) show ?thesis
        by (meson less_Suc_eq less_le_trans)
    qed
  qed
  have "ids_below (Suc now) (butlast (?item # ?h1))"
    using all unfolding ids_below_def
    by (metis distinct_butlast in_set_butlastD map_butlast)
  with all show ?thesis
    by (simp add: update_history_def Let_def)
qed

lemma ids_below_step:
  assumes "\<And>u. ids_below t (history_get s u)" and "clock_increases t [e]"
  shows "ids_below (next_clock t e) (history_get (fst (step verify s e)) u)"
proof (cases "sockets s (event_socket e)")
  case None
  then have "history_get (fst (step verify s e)) u = history_get s u"
    by (cases e) (simp_all add: step_def history_get_def)
  moreover have "t \<le> next_clock t e"
    using assms(2) by (cases e) simp_all
  ultimately show ?thesis
    using ids_below_mono [OF assms(1) [of u], of "next_clock t e"] by simp
next
  case (Some sock)
  then have st: "step verify s e = handle verify s e"
    by (simp add: step_def)
  show ?thesis
  proof (cases e)
    case (Connect sid)
    with st assms(1) show ?thesis by simp
  next
    case (Authenticate sid token)
    with st assms(1) show ?thesis by (simp add: history_get_on_authenticate)
  next
    case (ClipboardUpdate sid d now stamp)
    with assms(2) have le: "t \<le> now" by simp
    from ids_below_update_history [OF assms(1) le]
    have "ids_below (Suc now) (update_history (new_item d now stamp) (history_get s u))" .
    moreover have "ids_below (Suc now) (history_get s u)"
      using ids_below_mono [OF assms(1) [of u], of "Suc now"] le by simp
    ultimately show ?thesis
      using st ClipboardUpdate history_get_on_clipboard_update [of sid d now stamp s u]
      by auto
  next
    case (ClearHistory sid)
    with st assms(1) history_get_on_clear_history [of sid s u] show ?thesis
      by (auto simp: ids_below_Nil)
  next
    case (DeleteItem sid itemId)
    with st assms(1) history_get_on_delete_item [of sid itemId s u] show ?thesis
      by (auto simp: ids_below_filter)
  next
    case (Disconnect sid)
    with st assms(1) show ?thesis by (simp add: history_get_socket_close)
  qed
qed

lemma clock_increases_Cons:
  "clock_increases t (e # es) \<longleftrightarrow> clock_increases t [e] \<and> clock_increases (next_clock t e) es"
  by (cases e) simp_all

lemma ids_distinct_run:
  "(\<And>u. ids_below t (history_get s u)) \<Longrightarrow> clock_increases t evs \<Longrightarrow>
   distinct (map item_id (history_get (fst (run verify s evs)) u))"
proof (induction evs arbitrary: s t)
  case Nil
  then show ?case by (simp add: ids_below_def)
next
  case (Cons e evs)
  from Cons.prems(2) have c: "clock_increases t [e]" "clock_increases (next_clock t e) evs"
    by (simp_all add: clock_increases_Cons [of t e evs])
  have "ids_below (next_clock t e) (history_get (fst (step verify s e)) v)" for v
    using ids_below_step [OF Cons.prems(1) c(1)] .
  from Cons.IH [OF this c(2)] show ?case
    by (simp add: split_beta Let_def)
qed

lemma filter_distinct_key_removes_one:
  "distinct (map f xs) \<Longrightarrow> x \<in> set xs \<Longrightarrow>
   length (filter (\<lambda>y. f y \<noteq> f x) xs) = length xs - 1"
proof (induction xs)
  case Nil
  then show ?case by simp
next
  case (Cons a xs)
  show ?case
  proof (cases "f a = f x")
    case True
    with Cons.prems have "\<forall>y\<in>set xs. f y \<noteq> f x"
      by (metis distinct.simps(2) image_eqI list.simps(9) set_map)
    then have "filter (\<lambda>y. f y \<noteq> f x) xs = xs"
      by (simp add: filter_id_conv)
    with True show ?thesis by simp
  next
    case False
    with Cons.prems have x: "x \<in> set xs" and d: "distinct (map f xs)"
      by auto
    from Cons.IH [OF d x] False x show ?thesis
      by (cases xs) auto
  qed
qed

section \<open>History invariants\<close>

text \<open>
  Claim C2. Start from a state in which the user's history is empty (absent, or the
  \<^verbatim>\<open>[]\<close> of line 63). After any sequence of events, of any connections and users, so
  in particular after any sequence of \<^verbatim>\<open>clipboard_update\<close>, \<^verbatim>\<open>delete_item\<close> and
  \<^verbatim>\<open>clear_history\<close> events of this user, the user's history has at most
  \<open>MAX_HISTORY = 10\<close> entries.
\<close>

theorem history_length_bounded:
  assumes "history_get s0 u = []"
  shows "length (history_get (fst (run verify s0 evs)) u) \<le> MAX_HISTORY
       \<and> MAX_HISTORY = 10"
proof -
  have "length (history_get (fst (run verify s0 evs)) u) \<le> MAX_HISTORY"
  proof (rule history_get_run_invariant [where P = "\<lambda>h. length h \<le> MAX_HISTORY"])
    show "\<And>item h. length h \<le> MAX_HISTORY \<Longrightarrow> length (update_history item h) \<le> MAX_HISTORY"
      by (rule length_update_history)
    show "length ([] :: clipboardItem list) \<le> MAX_HISTORY" by simp
    show "\<And>q h. length h \<le> MAX_HISTORY \<Longrightarrow> length (filter q h) \<le> MAX_HISTORY" for h :: "clipboardItem list"
      using length_filter_le le_trans by blast
    show "length (history_get s0 u) \<le> MAX_HISTORY" using assms by simp
  qed
  then show ?thesis by (simp add: MAX_HISTORY_def)
qed

theorem history_length_bounded_witness:
  "history_get hub_init ''1'' = []
   \<and> length (history_get (fst (run ex_verify hub_init
         [Connect ''A'', Authenticate ''A'' ''tok1'',
          ClipboardUpdate ''A'' (ex_data ''foo'' None) 5 ''t5'',
          ClipboardUpdate ''A'' (ex_data ''bar'' None) 6 ''t6'',
          DeleteItem ''A'' ''5''])) ''1'') \<le> MAX_HISTORY"
  using history_length_bounded
    [of hub_init "''1''" ex_verify
        "[Connect ''A'', Authenticate ''A'' ''tok1'',
          ClipboardUpdate ''A'' (ex_data ''foo'' None) 5 ''t5'',
          ClipboardUpdate ''A'' (ex_data ''bar'' None) 6 ''t6'',
          DeleteItem ''A'' ''5'']"]
  by (simp add: history_get_def hub_init_def)

text \<open>
  Claim C3. From a state in which the user's history is empty, no run leads to a history
  in which two entries have the same content and the same type: the pairs
  (content, type) of the entries are pairwise distinct in every state reached, so after
  every \<^verbatim>\<open>clipboard_update\<close>.
\<close>

theorem history_no_duplicate_content:
  assumes "history_get s0 u = []"
  shows "distinct (map (\<lambda>item. (item_content item, item_type item))
                    (history_get (fst (run verify s0 evs)) u))"
proof -
  have "distinct (map item_key (history_get (fst (run verify s0 evs)) u))"
  proof (rule history_get_run_invariant [where P = "\<lambda>h. distinct (map item_key h)"])
    show "\<And>item h. distinct (map item_key h) \<Longrightarrow> distinct (map item_key (update_history item h))"
      by (rule distinct_update_history)
    show "distinct (map item_key [])" by simp
    show "\<And>q h. distinct (map item_key h) \<Longrightarrow> distinct (map item_key (filter q h))"
      by (rule distinct_map_filter)
    show "distinct (map item_key (history_get s0 u))" using assms by simp
  qed
  moreover have "item_key = (\<lambda>item. (item_content item, item_type item))"
    by (simp add: item_key_def fun_eq_iff)
  ultimately show ?thesis by simp
qed

theorem history_no_duplicate_content_witness:
  "history_get hub_init ''1'' = []
   \<and> distinct (map (\<lambda>item. (item_content item, item_type item))
        (history_get (fst (run ex_verify hub_init
           [Connect ''A'', Authenticate ''A'' ''tok1'',
            ClipboardUpdate ''A'' (ex_data ''foo'' None) 5 ''t5'',
            ClipboardUpdate ''A'' (ex_data ''bar'' None) 6 ''t6'',
            ClipboardUpdate ''A'' (ex_data ''foo'' (Some ''text'')) 7 ''t7''])) ''1''))"
  using history_no_duplicate_content
    [of hub_init "''1''" ex_verify
        "[Connect ''A'', Authenticate ''A'' ''tok1'',
          ClipboardUpdate ''A'' (ex_data ''foo'' None) 5 ''t5'',
          ClipboardUpdate ''A'' (ex_data ''bar'' None) 6 ''t6'',
          ClipboardUpdate ''A'' (ex_data ''foo'' (Some ''text'')) 7 ''t7'']"]
  by (simp add: history_get_def hub_init_def)

section \<open>Unauthenticated actions\<close>

text \<open>
  Claim C7. A live connection whose \<^verbatim>\<open>socket.userId\<close> is falsy (it has not
  authenticated) and that sends \<^verbatim>\<open>clipboard_update\<close>, \<^verbatim>\<open>clear_history\<close> or
  \<^verbatim>\<open>delete_item\<close> gets the error event, alone: the hub state (histories, registry,
  sockets) is unchanged and the only emission is the error to that connection.
\<close>

theorem unauthenticated_action_rejected:
  assumes "sockets s sid = Some sock" and "userId sock = None \<or> userId sock = Some []"
  shows "step verify s (ClipboardUpdate sid d now stamp) = (s, [(sid, Error ''Not authenticated'')])
       \<and> step verify s (ClearHistory sid) = (s, [(sid, Error ''Not authenticated'')])
       \<and> step verify s (DeleteItem sid itemId) = (s, [(sid, Error ''Not authenticated'')])"
  using assms
  by (auto simp: step_def socket_userId_def on_clipboard_update_def on_clear_history_def
      on_delete_item_def)

theorem unauthenticated_action_rejected_witness:
  "step ex_verify (hub_init\<lparr>sockets := [''A'' \<mapsto> \<lparr>userId = None\<rparr>]\<rparr>)
       (ClipboardUpdate ''A'' (ex_data ''foo'' None) 5 ''t5'')
     = (hub_init\<lparr>sockets := [''A'' \<mapsto> \<lparr>userId = None\<rparr>]\<rparr>, [(''A'', Error ''Not authenticated'')])
   \<and> step ex_verify (hub_init\<lparr>sockets := [''A'' \<mapsto> \<lparr>userId = None\<rparr>]\<rparr>) (ClearHistory ''A'')
     = (hub_init\<lparr>sockets := [''A'' \<mapsto> \<lparr>userId = None\<rparr>]\<rparr>, [(''A'', Error ''Not authenticated'')])
   \<and> step ex_verify (hub_init\<lparr>sockets := [''A'' \<mapsto> \<lparr>userId = None\<rparr>]\<rparr>) (DeleteItem ''A'' ''5'')
     = (hub_init\<lparr>sockets := [''A'' \<mapsto> \<lparr>userId = None\<rparr>]\<rparr>, [(''A'', Error ''Not authenticated'')])"
  using unauthenticated_action_rejected
    [of "hub_init\<lparr>sockets := [''A'' \<mapsto> \<lparr>userId = None\<rparr>]\<rparr>" "''A''" "\<lparr>userId = None\<rparr>"
        ex_verify "ex_data ''foo'' None" 5 "''t5''" "''5''"]
  by simp


section \<open>Fan-out of an update\<close>

text \<open>
  Claim C1. Let \<open>A\<close> be a live connection authenticated as user \<open>U\<close>
  (\<^verbatim>\<open>socket.userId\<close> is \<open>U\<close>, not empty) and let \<open>A\<close> and \<open>B\<close>, different, be in
  \<open>U\<close>'s set of \<^verbatim>\<open>userSockets\<close>. When \<open>A\<close> sends \<^verbatim>\<open>clipboard_update\<close>, the hub
  emits \<^verbatim>\<open>clipboard_sync\<close> with the new item to every connection of the set except
  \<open>A\<close>, then \<^verbatim>\<open>history\<close> with the full updated history of \<open>U\<close> to every connection
  of the set: \<open>B\<close> gets the sync event and \<open>A\<close> gets none, and both get the history.
\<close>

theorem clipboard_update_fan_out:
  assumes "sockets s A = Some sock" and "userId sock = Some U" and "U \<noteq> []"
    and "userSockets s U = Some conns" and "A \<in> set conns" and "B \<in> set conns" and "A \<noteq> B"
  shows "snd (step verify s (ClipboardUpdate A d now stamp))
           = map (\<lambda>c. (c, ClipboardSync (new_item d now stamp))) (filter (\<lambda>c. c \<noteq> A) conns)
             @ map (\<lambda>c. (c, History (history_get (fst (step verify s (ClipboardUpdate A d now stamp))) U)))
                 conns
       \<and> history_get (fst (step verify s (ClipboardUpdate A d now stamp))) U
           = update_history (new_item d now stamp) (history_get s U)
       \<and> (B, ClipboardSync (new_item d now stamp)) \<in> set (snd (step verify s (ClipboardUpdate A d now stamp)))
       \<and> (\<forall>item. (A, ClipboardSync item) \<notin> set (snd (step verify s (ClipboardUpdate A d now stamp))))
       \<and> (A, History (history_get (fst (step verify s (ClipboardUpdate A d now stamp))) U))
             \<in> set (snd (step verify s (ClipboardUpdate A d now stamp)))
       \<and> (B, History (history_get (fst (step verify s (ClipboardUpdate A d now stamp))) U))
             \<in> set (snd (step verify s (ClipboardUpdate A d now stamp)))"
proof -
  let ?item = "new_item d now stamp"
  let ?h = "update_history ?item (history_get s U)"
  have st: "step verify s (ClipboardUpdate A d now stamp) =
          (s\<lparr>clipboardHistory := (clipboardHistory s)(U \<mapsto> ?h)\<rparr>,
           broadcastToUserDevices s U (ClipboardSync ?item) (Some A)
           @ broadcastToUserDevices s U (History ?h) None)"
    by (rule step_clipboard_update_authenticated [OF assms(1-3)])
  have h: "history_get (fst (step verify s (ClipboardUpdate A d now stamp))) U = ?h"
    by (simp add: st history_get_def)
  have out: "snd (step verify s (ClipboardUpdate A d now stamp))
           = map (\<lambda>c. (c, ClipboardSync ?item)) (filter (\<lambda>c. c \<noteq> A) conns)
             @ map (\<lambda>c. (c, History ?h)) conns"
    by (simp add: st broadcastToUserDevices_def assms(4))
  have "(B, ClipboardSync ?item) \<in> set (snd (step verify s (ClipboardUpdate A d now stamp)))"
    using assms(6,7) by (auto simp: out)
  moreover have "\<forall>item. (A, ClipboardSync item) \<notin> set (snd (step verify s (ClipboardUpdate A d now stamp)))"
    by (auto simp: out)
  moreover have "(A, History ?h) \<in> set (snd (step verify s (ClipboardUpdate A d now stamp)))"
    using assms(5) by (auto simp: out)
  moreover have "(B, History ?h) \<in> set (snd (step verify s (ClipboardUpdate A d now stamp)))"
    using assms(6) by (auto simp: out)
  ultimately show ?thesis
    using h out by simp
qed

theorem clipboard_update_fan_out_witness:
  "snd (step ex_verify ex_hub (ClipboardUpdate ''A'' (ex_data ''baz'' None) 7 ''t7''))
     = [(''B'', ClipboardSync (ex_item ''7'' ''baz'' ''text''\<lparr>item_timestamp := ''t7''\<rparr>)),
        (''A'', History [ex_item ''7'' ''baz'' ''text''\<lparr>item_timestamp := ''t7''\<rparr>,
                         ex_item ''3'' ''bar'' ''text'', ex_item ''2'' ''foo'' ''text'']),
        (''B'', History [ex_item ''7'' ''baz'' ''text''\<lparr>item_timestamp := ''t7''\<rparr>,
                         ex_item ''3'' ''bar'' ''text'', ex_item ''2'' ''foo'' ''text''])]"
  using clipboard_update_fan_out
    [of ex_hub "''A''" "\<lparr>userId = Some ''1''\<rparr>" "''1''" "[''A'', ''B'']" "''B''"
        ex_verify "ex_data ''baz'' None" 7 "''t7''"]
  by (simp add: ex_defs eval_defs)

section \<open>An update that repeats an entry\<close>

text \<open>
  Claim C4. Let the history \<open>H\<close> of an authenticated user be within the bound and hold
  an entry with the content and the type of the update. The handler then removes the
  matching entry (the first one, at index \<open>i\<close>) and puts the new item in front: the new
  history is the new item followed by \<open>H\<close> without position \<open>i\<close>, its length is that of
  \<open>H\<close>, and the new item carries the id made from the clock of this update, its
  timestamp and the device of its payload. Where no two entries of \<open>H\<close> have the same
  content and type, no entry behind the new item matches it any more.
\<close>

theorem duplicate_moves_to_front:
  assumes "sockets s sid = Some sock" and "userId sock = Some uid" and "uid \<noteq> []"
    and "length (history_get s uid) \<le> MAX_HISTORY"
    and "e \<in> set (history_get s uid)"
    and "item_content e = item_content (new_item d now stamp)"
    and "item_type e = item_type (new_item d now stamp)"
  shows "\<exists>i<length (history_get s uid).
           findIndex (same_content (new_item d now stamp)) (history_get s uid) = Some i
         \<and> item_content (history_get s uid ! i) = item_content (new_item d now stamp)
         \<and> item_type (history_get s uid ! i) = item_type (new_item d now stamp)
         \<and> history_get (fst (step verify s (ClipboardUpdate sid d now stamp))) uid
             = new_item d now stamp # (take i (history_get s uid) @ drop (Suc i) (history_get s uid))
         \<and> length (history_get (fst (step verify s (ClipboardUpdate sid d now stamp))) uid)
             = length (history_get s uid)
         \<and> item_id (new_item d now stamp) = toString now
         \<and> item_timestamp (new_item d now stamp) = stamp
         \<and> item_deviceId (new_item d now stamp) = data_deviceId d
         \<and> item_deviceName (new_item d now stamp) = data_deviceName d
         \<and> (distinct (map (\<lambda>item. (item_content item, item_type item)) (history_get s uid))
              \<longrightarrow> (\<forall>x\<in>set (take i (history_get s uid) @ drop (Suc i) (history_get s uid)).
                     \<not> (item_content x = item_content (new_item d now stamp)
                        \<and> item_type x = item_type (new_item d now stamp))))"
proof -
  let ?item = "new_item d now stamp"
  let ?H = "history_get s uid"
  have m: "same_content ?item e"
    using assms(6,7) by (simp add: same_content_def)
  from update_history_duplicate [OF assms(5) m assms(4)]
  obtain i where i: "findIndex (same_content ?item) ?H = Some i" "i < length ?H"
      "same_content ?item (?H ! i)" "update_history ?item ?H = ?item # splice_at i ?H"
      "length (update_history ?item ?H) = length ?H"
    by blast
  have h: "history_get (fst (step verify s (ClipboardUpdate sid d now stamp))) uid
             = update_history ?item ?H"
    by (simp add: step_clipboard_update_authenticated [OF assms(1-3)] history_get_def)
  have key: "item_key = (\<lambda>item. (item_content item, item_type item))"
    by (simp add: item_key_def fun_eq_iff)
  have rest: "\<forall>x\<in>set (take i ?H @ drop (Suc i) ?H).
               \<not> (item_content x = item_content ?item \<and> item_type x = item_type ?item)"
    if d: "distinct (map item_key ?H)"
  proof
    fix x assume x: "x \<in> set (take i ?H @ drop (Suc i) ?H)"
    from splice_at_removes_key [OF d i(2)] have "item_key (?H ! i) \<notin> item_key ` set (splice_at i ?H)" .
    moreover from x have "item_key x \<in> item_key ` set (splice_at i ?H)"
      by (simp add: splice_at_def)
    ultimately have "item_key x \<noteq> item_key (?H ! i)"
      by metis
    with i(3) show "\<not> (item_content x = item_content ?item \<and> item_type x = item_type ?item)"
      by (auto simp: item_key_def same_content_def)
  qed
  have fields: "item_id ?item = toString now \<and> item_timestamp ?item = stamp
      \<and> item_deviceId ?item = data_deviceId d \<and> item_deviceName ?item = data_deviceName d"
    by (simp add: new_item_def)
  show ?thesis
  proof (intro exI [of _ i] conjI)
    show "i < length ?H" by (rule i(2))
    show "findIndex (same_content ?item) ?H = Some i" by (rule i(1))
    show "item_content (?H ! i) = item_content ?item" using i(3) by (simp add: same_content_def)
    show "item_type (?H ! i) = item_type ?item" using i(3) by (simp add: same_content_def)
    show "history_get (fst (step verify s (ClipboardUpdate sid d now stamp))) uid
             = ?item # (take i ?H @ drop (Suc i) ?H)"
      using h i(4) by (simp add: splice_at_def)
    show "length (history_get (fst (step verify s (ClipboardUpdate sid d now stamp))) uid) = length ?H"
      using h i(5) by simp
    show "item_id ?item = toString now" using fields by simp
    show "item_timestamp ?item = stamp" using fields by simp
    show "item_deviceId ?item = data_deviceId d" using fields by simp
    show "item_deviceName ?item = data_deviceName d" using fields by simp
    show "distinct (map (\<lambda>item. (item_content item, item_type item)) ?H)
              \<longrightarrow> (\<forall>x\<in>set (take i ?H @ drop (Suc i) ?H).
                     \<not> (item_content x = item_content ?item \<and> item_type x = item_type ?item))"
      using rest key by simp
  qed
qed

theorem duplicate_moves_to_front_witness:
  "history_get (fst (step ex_verify ex_hub
       (ClipboardUpdate ''B'' (ex_data ''foo'' (Some ''text'')) 7 ''t7''))) ''1''
     = [ex_item ''7'' ''foo'' ''text''\<lparr>item_timestamp := ''t7''\<rparr>, ex_item ''3'' ''bar'' ''text'']
   \<and> length (history_get ex_hub ''1'') = 2"
  using duplicate_moves_to_front
    [of ex_hub "''B''" "\<lparr>userId = Some ''1''\<rparr>" "''1''" "ex_item ''2'' ''foo'' ''text''"
        "ex_data ''foo'' (Some ''text'')" 7 "''t7''" ex_verify]
  by (simp add: ex_defs eval_defs)

section \<open>The default content type\<close>

text \<open>
  Claim C10. A \<^verbatim>\<open>clipboard_update\<close> whose payload has no \<^verbatim>\<open>type\<close>, or the empty
  string as its \<^verbatim>\<open>type\<close>, is stored with the type \<open>text\<close>: the new item, which is
  the first entry of the user's history afterwards, has \<open>item_type = ''text''\<close>. The
  default is applied before the scan for a duplicate: where the history, within the
  bound, holds an entry with the content of the payload and the type \<open>text\<close>, the first
  such entry is removed and the length of the history stays.
\<close>

theorem missing_type_defaults_to_text:
  assumes "data_type d = None \<or> data_type d = Some []"
    and "sockets s sid = Some sock" and "userId sock = Some uid" and "uid \<noteq> []"
  shows "item_type (new_item d now stamp) = ''text''
       \<and> (\<exists>rest. history_get (fst (step verify s (ClipboardUpdate sid d now stamp))) uid
                    = new_item d now stamp # rest)
       \<and> (length (history_get s uid) \<le> MAX_HISTORY \<longrightarrow>
            (\<forall>e\<in>set (history_get s uid).
               item_content e = data_content d \<and> item_type e = ''text'' \<longrightarrow>
               (\<exists>i<length (history_get s uid).
                   item_content (history_get s uid ! i) = data_content d
                 \<and> item_type (history_get s uid ! i) = ''text''
                 \<and> history_get (fst (step verify s (ClipboardUpdate sid d now stamp))) uid
                     = new_item d now stamp
                       # (take i (history_get s uid) @ drop (Suc i) (history_get s uid))
                 \<and> length (history_get (fst (step verify s (ClipboardUpdate sid d now stamp))) uid)
                     = length (history_get s uid))))"
proof -
  let ?item = "new_item d now stamp"
  let ?H = "history_get s uid"
  have ty: "item_type ?item = ''text''"
    using assms(1) by (auto simp: new_item_def)
  have co: "item_content ?item = data_content d"
    by (simp add: new_item_def)
  have h: "history_get (fst (step verify s (ClipboardUpdate sid d now stamp))) uid
             = update_history ?item ?H"
    by (simp add: step_clipboard_update_authenticated [OF assms(2-4)] history_get_def)
  have stored: "\<exists>rest. history_get (fst (step verify s (ClipboardUpdate sid d now stamp))) uid
                    = ?item # rest"
    using h update_history_head [of ?item ?H] by metis
  have dedup: "\<exists>i<length ?H.
                   item_content (?H ! i) = data_content d
                 \<and> item_type (?H ! i) = ''text''
                 \<and> history_get (fst (step verify s (ClipboardUpdate sid d now stamp))) uid
                     = ?item # (take i ?H @ drop (Suc i) ?H)
                 \<and> length (history_get (fst (step verify s (ClipboardUpdate sid d now stamp))) uid)
                     = length ?H"
    if len: "length ?H \<le> MAX_HISTORY" and e: "e \<in> set ?H"
      and m: "item_content e = data_content d \<and> item_type e = ''text''" for e
  proof -
    have "same_content ?item e"
      using m ty co by (simp add: same_content_def)
    from update_history_duplicate [OF e this len]
    obtain i where i: "i < length ?H" "same_content ?item (?H ! i)"
        "update_history ?item ?H = ?item # splice_at i ?H"
        "length (update_history ?item ?H) = length ?H"
      by blast
    from i(2) ty co have "item_content (?H ! i) = data_content d \<and> item_type (?H ! i) = ''text''"
      by (simp add: same_content_def)
    with i h show ?thesis
      by (auto simp: splice_at_def)
  qed
  from ty stored dedup show ?thesis
    by blast
qed

theorem missing_type_defaults_to_text_witness:
  "history_get (fst (step ex_verify ex_hub (ClipboardUpdate ''A'' (ex_data ''foo'' None) 7 ''t7''))) ''1''
     = [ex_item ''7'' ''foo'' ''text''\<lparr>item_timestamp := ''t7''\<rparr>, ex_item ''3'' ''bar'' ''text'']
   \<and> history_get (fst (step ex_verify ex_hub (ClipboardUpdate ''A'' (ex_data ''foo'' (Some [])) 7 ''t7''))) ''1''
     = [ex_item ''7'' ''foo'' ''text''\<lparr>item_timestamp := ''t7''\<rparr>, ex_item ''3'' ''bar'' ''text'']"
  using missing_type_defaults_to_text
    [of "ex_data ''foo'' None" ex_hub "''A''" "\<lparr>userId = Some ''1''\<rparr>" "''1''" 7 "''t7''" ex_verify]
    missing_type_defaults_to_text
    [of "ex_data ''foo'' (Some [])" ex_hub "''A''" "\<lparr>userId = Some ''1''\<rparr>" "''1''" 7 "''t7''" ex_verify]
  by (simp add: ex_defs eval_defs)

section \<open>The session registry\<close>

text \<open>
  Claim C9 says that for a user \<open>U\<close> with the registered connections \<open>A\<close> and \<open>B\<close>
  the disconnect of \<open>A\<close> removes it from \<open>U\<close>'s set, so that a later broadcast for
  \<open>U\<close> reaches \<open>B\<close> only. The handler of \<^verbatim>\<open>disconnect\<close> (lines 196-204) cleans
  the one set that \<^verbatim>\<open>socket.userId\<close> names, and \<^verbatim>\<open>authenticate\<close> can leave the
  socket id in the set of an earlier identity. Evaluated: \<open>A\<close> authenticates as user
  \<open>1\<close> and then as user \<open>2\<close>, \<open>B\<close> authenticates as user \<open>1\<close>; \<open>A\<close> and \<open>B\<close>
  are both in the set of user \<open>1\<close>. After the disconnect of \<open>A\<close> the set of user
  \<open>1\<close> still holds \<open>A\<close>, and a broadcast for user \<open>1\<close> is addressed to \<open>A\<close> and
  \<open>B\<close>.
\<close>

theorem disconnect_leaves_stale_registration:
  "userSockets (fst (run ex_verify hub_init
      [Connect ''A'', Authenticate ''A'' ''tok1'', Authenticate ''A'' ''tok2'',
       Connect ''B'', Authenticate ''B'' ''tok1''])) ''1'' = Some [''A'', ''B'']
   \<and> sockets (fst (run ex_verify hub_init
      [Connect ''A'', Authenticate ''A'' ''tok1'', Authenticate ''A'' ''tok2'',
       Connect ''B'', Authenticate ''B'' ''tok1''])) ''A'' = Some \<lparr>userId = Some ''2''\<rparr>
   \<and> userSockets (fst (run ex_verify hub_init
      [Connect ''A'', Authenticate ''A'' ''tok1'', Authenticate ''A'' ''tok2'',
       Connect ''B'', Authenticate ''B'' ''tok1'', Disconnect ''A''])) ''1'' = Some [''A'', ''B'']
   \<and> registered_for (fst (run ex_verify hub_init
      [Connect ''A'', Authenticate ''A'' ''tok1'', Authenticate ''A'' ''tok2'',
       Connect ''B'', Authenticate ''B'' ''tok1'', Disconnect ''A''])) ''1'' ''A''
   \<and> sockets (fst (run ex_verify hub_init
      [Connect ''A'', Authenticate ''A'' ''tok1'', Authenticate ''A'' ''tok2'',
       Connect ''B'', Authenticate ''B'' ''tok1'', Disconnect ''A''])) ''A'' = None
   \<and> broadcastToUserDevices (fst (run ex_verify hub_init
      [Connect ''A'', Authenticate ''A'' ''tok1'', Authenticate ''A'' ''tok2'',
       Connect ''B'', Authenticate ''B'' ''tok1'', Disconnect ''A'']))
        ''1'' (History []) None = [(''A'', History []), (''B'', History [])]"
  by (simp add: ex_defs eval_defs registered_for_def)

text \<open>
  The handler does remove the connection where \<^verbatim>\<open>socket.userId\<close> is the user in
  whose set it is. Let \<open>A\<close> be a live connection whose \<^verbatim>\<open>socket.userId\<close> is \<open>U\<close> and
  let \<open>conns\<close> be \<open>U\<close>'s set. When \<open>A\<close> disconnects, \<open>U\<close>'s set becomes \<open>conns\<close>
  without \<open>A\<close>, the entry of \<open>U\<close> is deleted when nothing is left, and the sets of the
  other users stay; a broadcast for \<open>U\<close> afterwards goes to the connections of \<open>conns\<close>
  other than \<open>A\<close>, so to \<open>B\<close> alone when the set was \<open>{A, B}\<close>. The disconnect of a
  connection that has no \<^verbatim>\<open>socket.userId\<close> leaves the registry as it is.
\<close>

lemma disconnect_unregisters:
  assumes "sockets s A = Some sock" and "userId sock = Some U" and "U \<noteq> []"
    and "userSockets s U = Some conns"
  shows "userSockets (fst (step verify s (Disconnect A))) U
           = (if filter (\<lambda>c. c \<noteq> A) conns = [] then None else Some (filter (\<lambda>c. c \<noteq> A) conns))
       \<and> \<not> registered_for (fst (step verify s (Disconnect A))) U A
       \<and> (\<forall>u. u \<noteq> U \<longrightarrow> userSockets (fst (step verify s (Disconnect A))) u = userSockets s u)
       \<and> broadcastToUserDevices (fst (step verify s (Disconnect A))) U ev None
           = map (\<lambda>c. (c, ev)) (filter (\<lambda>c. c \<noteq> A) conns)
       \<and> (distinct conns \<and> set conns = {A, B} \<and> A \<noteq> B \<longrightarrow>
            broadcastToUserDevices (fst (step verify s (Disconnect A))) U ev None = [(B, ev)])
       \<and> (\<forall>C. socket_userId s C = None \<longrightarrow>
            userSockets (fst (step verify s (Disconnect C))) = userSockets s)"
proof -
  let ?s' = "fst (step verify s (Disconnect A))"
  let ?rest = "filter (\<lambda>c. c \<noteq> A) conns"
  have su: "socket_userId s A = Some U"
    using assms(1,2) by (simp add: socket_userId_def)
  have st: "?s' = socket_close A s"
    using assms(1) by (simp add: step_def)
  have reg: "userSockets ?s' u =
      (if u = U then (if ?rest = [] then None else Some ?rest) else userSockets s u)" for u
    using su assms(3,4)
    by (auto simp: st userSockets_socket_close userSockets_on_disconnect)
  have bc: "broadcastToUserDevices ?s' U ev None = map (\<lambda>c. (c, ev)) ?rest"
    by (simp add: broadcastToUserDevices_def reg)
  have two: "broadcastToUserDevices ?s' U ev None = [(B, ev)]"
    if "distinct conns \<and> set conns = {A, B} \<and> A \<noteq> B"
  proof -
    from that have "distinct ?rest" and "set ?rest = {B}"
      by auto
    then have "?rest = [B]"
      by (rule distinct_set_singleton)
    with bc show ?thesis by simp
  qed
  have never: "userSockets (fst (step verify s (Disconnect C))) = userSockets s"
    if "socket_userId s C = None" for C
    using that
    by (cases "sockets s C")
      (auto simp: step_def fun_eq_iff userSockets_socket_close userSockets_on_disconnect)
  have notreg: "\<not> registered_for ?s' U A"
    by (simp add: registered_for_def reg)
  from reg bc two never notreg show ?thesis
    by simp
qed

lemma disconnect_unregisters_example:
  "userSockets (fst (step ex_verify ex_hub (Disconnect ''A''))) ''1'' = Some [''B'']
   \<and> broadcastToUserDevices (fst (step ex_verify ex_hub (Disconnect ''A''))) ''1'' (History []) None
       = [(''B'', History [])]
   \<and> userSockets (fst (step ex_verify (fst (step ex_verify ex_hub (Disconnect ''A''))) (Disconnect ''B'')))
        ''1'' = None"
  using disconnect_unregisters
    [of ex_hub "''A''" "\<lparr>userId = Some ''1''\<rparr>" "''1''" "[''A'', ''B'']" ex_verify "History []" "''B''"]
  by (simp add: ex_defs eval_defs)

text \<open>
  Claim C5 says that a socket id is in the set of at most one user at any time, also
  when a connection authenticates again with the token of another user. The handler of
  \<^verbatim>\<open>authenticate\<close> overwrites \<^verbatim>\<open>socket.userId\<close> and adds the id to the new user's
  set, and leaves the set of the previous user alone. Evaluated: connection \<open>A\<close>
  authenticates as user \<open>1\<close>, then as user \<open>2\<close>, and is in both sets; after its
  disconnect, which cleans the set of user \<open>2\<close> only, it is still in the set of user
  \<open>1\<close>, and a broadcast for user \<open>1\<close> is addressed to it.
\<close>

theorem reauthentication_registers_twice:
  "registered_for (fst (run ex_verify hub_init
      [Connect ''A'', Authenticate ''A'' ''tok1'', Authenticate ''A'' ''tok2''])) ''1'' ''A''
   \<and> registered_for (fst (run ex_verify hub_init
      [Connect ''A'', Authenticate ''A'' ''tok1'', Authenticate ''A'' ''tok2''])) ''2'' ''A''
   \<and> userSockets (fst (run ex_verify hub_init
      [Connect ''A'', Authenticate ''A'' ''tok1'', Authenticate ''A'' ''tok2'', Disconnect ''A''])) ''1''
       = Some [''A'']
   \<and> broadcastToUserDevices (fst (run ex_verify hub_init
      [Connect ''A'', Authenticate ''A'' ''tok1'', Authenticate ''A'' ''tok2'', Disconnect ''A'']))
        ''1'' (History []) None = [(''A'', History [])]"
  by (simp add: ex_defs eval_defs registered_for_def)

text \<open>
  The registry is sound as long as no connection changes its identity: along such a run
  from the initial state, a socket id is in the set of one user at most.
\<close>

lemma one_user_per_connection:
  assumes "keeps_identity verify hub_init evs"
    and "registered_for (fst (run verify hub_init evs)) u c"
    and "registered_for (fst (run verify hub_init evs)) u' c"
  shows "u = u'"
proof -
  let ?s = "fst (run verify hub_init evs)"
  have inv: "registry_consistent ?s"
    by (rule registry_consistent_run [OF registry_consistent_init assms(1)])
  from inv assms(2) have "socket_userId ?s c = Some u"
    by (simp add: registry_consistent_def)
  moreover from inv assms(3) have "socket_userId ?s c = Some u'"
    by (simp add: registry_consistent_def)
  ultimately show ?thesis by simp
qed

section \<open>A credential that fails verification\<close>



section \<open>Item ids\<close>

text \<open>
  Claim C6 says that the ids of the entries of one history are pairwise distinct, so
  that \<^verbatim>\<open>delete_item\<close> removes exactly one entry. The id is
  \<^verbatim>\<open>Date.now().toString()\<close> (line 129), the clock in milliseconds, so two updates
  handled within the same millisecond get the same id. Evaluated: the connection of user
  \<open>1\<close> sends \<open>foo\<close> and \<open>bar\<close> at clock 5; both entries have the id \<open>5\<close>, and
  \<^verbatim>\<open>delete_item\<close> with that id removes both.
\<close>

theorem same_clock_same_id:
  "map item_id (history_get (fst (run ex_verify hub_init
      [Connect ''A'', Authenticate ''A'' ''tok1'',
       ClipboardUpdate ''A'' (ex_data ''foo'' None) 5 ''t5'',
       ClipboardUpdate ''A'' (ex_data ''bar'' None) 5 ''t5''])) ''1'') = [''5'', ''5'']
   \<and> map item_content (history_get (fst (run ex_verify hub_init
      [Connect ''A'', Authenticate ''A'' ''tok1'',
       ClipboardUpdate ''A'' (ex_data ''foo'' None) 5 ''t5'',
       ClipboardUpdate ''A'' (ex_data ''bar'' None) 5 ''t5''])) ''1'') = [''bar'', ''foo'']
   \<and> history_get (fst (run ex_verify hub_init
      [Connect ''A'', Authenticate ''A'' ''tok1'',
       ClipboardUpdate ''A'' (ex_data ''foo'' None) 5 ''t5'',
       ClipboardUpdate ''A'' (ex_data ''bar'' None) 5 ''t5'',
       DeleteItem ''A'' ''5''])) ''1'' = []"
  by (simp add: ex_defs eval_defs)

text \<open>
  The ids are distinct where the clock has moved between any two updates: along a run
  from the initial state in which the clocks of the updates increase, the ids of every
  history are pairwise distinct, and the filter of \<^verbatim>\<open>delete_item\<close> with the id of
  an entry removes that entry and no other.
\<close>

lemma ids_distinct_increasing_clock:
  assumes "clock_increases 0 evs" and "x \<in> set (history_get (fst (run verify hub_init evs)) u)"
  shows "distinct (map item_id (history_get (fst (run verify hub_init evs)) u))
       \<and> length (filter (\<lambda>item. item_id item \<noteq> item_id x)
                    (history_get (fst (run verify hub_init evs)) u))
           = length (history_get (fst (run verify hub_init evs)) u) - 1"
proof -
  have "ids_below 0 (history_get hub_init v)" for v
    by (simp add: ids_below_def history_get_def hub_init_def)
  from ids_distinct_run [OF this assms(1)]
  have d: "distinct (map item_id (history_get (fst (run verify hub_init evs)) u))" .
  from filter_distinct_key_removes_one [OF d assms(2)] d show ?thesis
    by simp
qed

end
